theory Spec2Isabelle
  imports Main "HOL-Library.Sublist"
begin

chapter \<open>The model of \<open>app.py\<close>\<close>

text \<open>
  The program collects \<open>(source, title, link)\<close> items from web pages and feeds, counts
  the tokens of their titles, ranks the most frequent ones, attaches a bounded list of
  linked items to every ranked keyword, writes a digest page and posts it to a chat
  channel. This part embeds its functions; the second part states and proves their
  properties.

  What lies outside the file is an input of the model. A fetched page is represented
  by what the parser's selectors return on it, a fetch by its outcome, the chat service
  by its answers. \<open>TOP_K\<close> and \<open>POST_LIMIT_PER_SOURCE\<close>, read from the environment with
  \<open>int(...)\<close>, are integer parameters. What Python's Unicode tables say about the
  characters outside ASCII is a parameter as well. Every \<open>raise\<close> and every failing
  index or key access is a value of type \<open>error\<close>.
\<close>

section \<open>Strings and characters\<close>

text \<open>
  Python strings are modelled as \<^typ>\<open>string\<close>. A character below 128 is the ASCII
  character of that code; a character from 128 on stands for a character outside ASCII.
  On ASCII the character functions that the program calls are spelled out here.
\<close>

definition ord :: "char \<Rightarrow> nat" where
  "ord c = of_char c"

definition is_ascii :: "char \<Rightarrow> bool" where
  "is_ascii c \<longleftrightarrow> ord c < 128"

definition is_upper :: "char \<Rightarrow> bool" where
  "is_upper c \<longleftrightarrow> 65 \<le> ord c \<and> ord c \<le> 90"

definition is_lower :: "char \<Rightarrow> bool" where
  "is_lower c \<longleftrightarrow> 97 \<le> ord c \<and> ord c \<le> 122"

definition is_digit :: "char \<Rightarrow> bool" where
  "is_digit c \<longleftrightarrow> 48 \<le> ord c \<and> ord c \<le> 57"

definition is_alnum :: "char \<Rightarrow> bool" where
  "is_alnum c \<longleftrightarrow> is_upper c \<or> is_lower c \<or> is_digit c"

definition lower_char :: "char \<Rightarrow> char" where
  "lower_char c = (if is_upper c then char_of (ord c + 32) else c)"

definition upper_char :: "char \<Rightarrow> char" where
  "upper_char c = (if is_lower c then char_of (ord c - 32) else c)"

text \<open>
  \<open>lower\<close> and \<open>upper\<close> are \<open>str.lower\<close> and \<open>str.upper\<close> on a string of ASCII
  characters, and \<open>isdigit\<close> is \<open>str.isdigit\<close> on such a string.
\<close>

definition lower :: "string \<Rightarrow> string" where
  "lower s = map lower_char s"

definition upper :: "string \<Rightarrow> string" where
  "upper s = map upper_char s"

definition isdigit :: "string \<Rightarrow> bool" where
  "isdigit s \<longleftrightarrow> s \<noteq> [] \<and> list_all is_digit s"

text \<open>
  Outside ASCII, the answers of Python's Unicode tables are the fields of a record that
  every function depending on them takes as its first argument: the lower-case and the
  upper-case form of a string that is not all ASCII, and whether a character outside
  ASCII is whitespace (for \<open>str.strip\<close> and \<open>str.split\<close>) and whether it is a word
  character (the class \<open>\w\<close> behind \<open>\b\<close>). Nothing is assumed of these fields.
\<close>

record unicode =
  uni_lower :: "string \<Rightarrow> string"
  uni_upper :: "string \<Rightarrow> string"
  uni_space :: "char \<Rightarrow> bool"
  uni_word :: "char \<Rightarrow> bool"

definition str_lower :: "unicode \<Rightarrow> string \<Rightarrow> string" where
  "str_lower U s = (if list_all is_ascii s then lower s else uni_lower U s)"

definition str_upper :: "unicode \<Rightarrow> string \<Rightarrow> string" where
  "str_upper U s = (if list_all is_ascii s then upper s else uni_upper U s)"

text \<open>The ASCII whitespace of \<open>str.strip()\<close> and \<open>str.split()\<close>: tab to carriage
  return, the four separators \<open>0x1c\<close> to \<open>0x1f\<close>, and the space.\<close>

definition is_space :: "unicode \<Rightarrow> char \<Rightarrow> bool" where
  "is_space U c \<longleftrightarrow>
     (if is_ascii c then (9 \<le> ord c \<and> ord c \<le> 13) \<or> (28 \<le> ord c \<and> ord c \<le> 32)
      else uni_space U c)"

text \<open>The word characters \<open>\w\<close> that decide a word boundary \<open>\b\<close>.\<close>

definition is_word :: "unicode \<Rightarrow> char \<Rightarrow> bool" where
  "is_word U c \<longleftrightarrow> (if is_ascii c then is_alnum c \<or> c = CHR ''_'' else uni_word U c)"

definition strip :: "unicode \<Rightarrow> string \<Rightarrow> string" where
  "strip U s = rev (dropWhile (is_space U) (rev (dropWhile (is_space U) s)))"

text \<open>\<open>s.lstrip(chars)\<close> drops the leading characters that occur in \<open>chars\<close>.\<close>

definition lstrip :: "string \<Rightarrow> string \<Rightarrow> string" where
  "lstrip chars s = dropWhile (\<lambda>c. c \<in> set chars) s"

text \<open>
  \<open>s.split()\<close> without arguments: skip whitespace, take the run of other characters,
  repeat; no empty string is produced.
\<close>

function split_ws :: "unicode \<Rightarrow> string \<Rightarrow> string list" where
  "split_ws U s =
     (case dropWhile (is_space U) s of
        [] \<Rightarrow> []
      | c # cs \<Rightarrow> takeWhile (\<lambda>x. \<not> is_space U x) (c # cs) #
                 split_ws U (dropWhile (\<lambda>x. \<not> is_space U x) cs))"
  by pat_completeness auto
termination
proof (relation "measure (\<lambda>(U, s). length s)")
  show "wf (measure (\<lambda>(U, s). length s))" by simp
next
  fix U :: unicode and s :: string and c cs
  assume "dropWhile (is_space U) s = c # cs"
  then have "length (c # cs) \<le> length s"
    using length_dropWhile_le [of "is_space U" s] by simp
  moreover have "length (dropWhile (\<lambda>x. \<not> is_space U x) cs) \<le> length cs"
    by (rule length_dropWhile_le)
  ultimately show "((U, dropWhile (\<lambda>x. \<not> is_space U x) cs), (U, s))
      \<in> measure (\<lambda>(U, s). length s)"
    by simp
qed

declare split_ws.simps [simp del]

section \<open>Errors\<close>

datatype error = RuntimeError string | IndexError | KeyError string

section \<open>Items and deduplication\<close>

text \<open>An item is the tuple \<open>(src, title, link)\<close> the parsers build.\<close>

type_synonym item = "string \<times> string \<times> string"

text \<open>
  \<open>dedup\<close>: one pass over \<open>items\<close> with the set \<open>seen\<close> of keys and the output list
  \<open>out\<close>; an item whose key \<open>(title.lower(), link)\<close> was seen is skipped. A title is any
  text, so its lower-case form depends on the Unicode tables.
\<close>

fun dedup_loop ::
  "unicode \<Rightarrow> (string \<times> string) set \<Rightarrow> item list \<Rightarrow> item list \<Rightarrow> item list" where
  "dedup_loop U seen out [] = out"
| "dedup_loop U seen out ((src, title, link) # items) =
     (let key = (str_lower U title, link) in
      if key \<in> seen then dedup_loop U seen out items
      else dedup_loop U (insert key seen) (out @ [(src, title, link)]) items)"

definition dedup :: "unicode \<Rightarrow> item list \<Rightarrow> item list" where
  "dedup U items = dedup_loop U {} [] items"

section \<open>Parsers\<close>

text \<open>
  A page is represented by the elements the four selectors of the HTML parsers find in
  it, each with its stripped text and its \<open>href\<close> attribute (\<open>None\<close> when absent; the
  selector \<open>a[href^='/articles/']\<close> only finds anchors that have one). A feed is the list
  of its \<open>item\<close>/\<open>entry\<close> nodes: the text of the title child when there is one, and the
  \<open>href\<close> attribute and text of the link child when there is one.
\<close>

record html_doc =
  article_anchors :: "(string \<times> string) list"
  question_anchors :: "(string \<times> string option) list"
  repo_anchors :: "(string \<times> string option) list"
  repo_paragraphs :: "string list"

type_synonym feed_entry = "string option \<times> (string option \<times> string) option"

fun qiita_items :: "(string \<times> string) list \<Rightarrow> item list" where
  "qiita_items [] = []"
| "qiita_items ((title, href) # anchors) =
     (let link = ''https://qiita.com'' @ href in
      if title \<noteq> [] \<and> link \<noteq> [] then (''Qiita'', title, link) # qiita_items anchors
      else qiita_items anchors)"

definition parse_qiita_trend :: "unicode \<Rightarrow> html_doc \<Rightarrow> item list" where
  "parse_qiita_trend U html = dedup U (qiita_items (article_anchors html))"

fun stackoverflow_items :: "(string \<times> string option) list \<Rightarrow> item list" where
  "stackoverflow_items [] = []"
| "stackoverflow_items ((title, None) # anchors) = stackoverflow_items anchors"
| "stackoverflow_items ((title, Some href) # anchors) =
     (if href = [] then stackoverflow_items anchors
      else
        let link = (if prefix ''http'' href then href else ''https://stackexchange.com'' @ href)
        in (''StackOverflow'', title, link) # stackoverflow_items anchors)"

definition parse_stackoverflow_hot :: "unicode \<Rightarrow> html_doc \<Rightarrow> item list" where
  "parse_stackoverflow_hot U html = dedup U (stackoverflow_items (question_anchors html))"

fun github_repo_items :: "(string \<times> string option) list \<Rightarrow> item list" where
  "github_repo_items [] = []"
| "github_repo_items ((title, None) # anchors) = github_repo_items anchors"
| "github_repo_items ((title, Some href) # anchors) =
     (if href = [] then github_repo_items anchors
      else (''GitHubTrending'', title, ''https://github.com'' @ href) # github_repo_items anchors)"

fun github_text_items :: "string list \<Rightarrow> item list" where
  "github_text_items [] = []"
| "github_text_items (t # ps) =
     (if t \<noteq> [] then (''GitHubTrending'', t, []) # github_text_items ps
      else github_text_items ps)"

definition parse_github_trending :: "unicode \<Rightarrow> html_doc \<Rightarrow> item list" where
  "parse_github_trending U html =
     dedup U (github_repo_items (repo_anchors html) @ github_text_items (repo_paragraphs html))"

fun rss_items :: "string \<Rightarrow> feed_entry list \<Rightarrow> item list" where
  "rss_items source_name [] = []"
| "rss_items source_name ((title_tag, link_tag) # entries) =
     (let title = (case title_tag of None \<Rightarrow> [] | Some t \<Rightarrow> t);
          link = (case link_tag of
                    None \<Rightarrow> []
                  | Some (href, txt) \<Rightarrow>
                      (case href of None \<Rightarrow> txt | Some h \<Rightarrow> if h \<noteq> [] then h else txt))
      in if title \<noteq> [] then (source_name, title, link) # rss_items source_name entries
         else rss_items source_name entries)"

definition parse_rss_generic :: "unicode \<Rightarrow> feed_entry list \<Rightarrow> string \<Rightarrow> item list" where
  "parse_rss_generic U xml_text source_name = dedup U (rss_items source_name xml_text)"

section \<open>Token extraction\<close>

text \<open>
  \<open>TOKEN_RE\<close> is \<open>[A-Za-z0-9][A-Za-z0-9#\+\.\-]{1,30}\<close>. A match at the head of a
  string takes one alphanumeric character and then, greedily, one to thirty characters
  of the second class; \<open>token_re_match\<close> returns the match and the rest of the string.
  \<open>finditer\<close> scans from the left: where no match starts it moves one character on,
  after a match it goes on behind it.
\<close>

definition is_token_char :: "char \<Rightarrow> bool" where
  "is_token_char c \<longleftrightarrow>
     is_alnum c \<or> c = CHR ''#'' \<or> c = CHR ''+'' \<or> c = CHR ''.'' \<or> c = CHR ''-''"

definition token_re_match :: "string \<Rightarrow> (string \<times> string) option" where
  "token_re_match s =
     (case s of
        [] \<Rightarrow> None
      | c # cs \<Rightarrow>
          if is_alnum c then
            (let run = takeWhile is_token_char (take 30 cs) in
             if run = [] then None else Some (c # run, drop (length run) cs))
          else None)"

function finditer :: "string \<Rightarrow> string list" where
  "finditer [] = []"
| "finditer (c # cs) =
     (case token_re_match (c # cs) of
        None \<Rightarrow> finditer cs
      | Some (w, rest) \<Rightarrow> w # finditer rest)"
  by pat_completeness auto
termination
  by (relation "measure length")
     (auto simp: token_re_match_def Let_def split: if_splits)

definition STOPWORDS :: "string set" where
  "STOPWORDS = set
    [''the'', ''of'', ''and'', ''for'', ''with'', ''from'', ''this'', ''that'', ''what'',
     ''when'', ''where'', ''how'', ''why'', ''who'', ''whose'', ''your'', ''you'', ''into'',
     ''out'', ''are'', ''is'', ''in'', ''on'', ''to'', ''a'', ''an'', ''by'', ''at'', ''as'',
     ''or'', ''not'',
     ''home'', ''about'', ''login'', ''signup'', ''tags'', ''jobs'', ''help'', ''privacy'',
     ''terms'', ''stackexchange'', ''stackoverflow'', ''qiita'', ''github'', ''trending'',
     ''follow'', ''issue'', ''pull'']"

text \<open>
  In the loop of \<open>extract_tokens\<close>, \<open>w\<close> is a match of \<open>TOKEN_RE\<close> and so a string of
  ASCII characters, on which \<open>str.lower\<close> is \<open>lower\<close> and \<open>str.isdigit\<close> is \<open>isdigit\<close>
  whatever the Unicode tables say elsewhere.
\<close>

fun extract_loop :: "string list \<Rightarrow> string list \<Rightarrow> string list" where
  "extract_loop tokens [] = tokens"
| "extract_loop tokens (w # ms) =
     (let lw = lower w in
      if lw \<in> STOPWORDS \<or> isdigit lw \<or> length w \<le> 1 then extract_loop tokens ms
      else extract_loop (tokens @ [w]) ms)"

definition extract_tokens :: "string \<Rightarrow> string list" where
  "extract_tokens text = extract_loop [] (finditer text)"

section \<open>Keyword ranking and evidence\<close>

text \<open>
  The \<open>Counter\<close> is a dictionary in insertion order: an association list in which
  \<open>counter[t] += 1\<close> raises the count of \<open>t\<close> in place, or appends \<open>(t, 1)\<close> when \<open>t\<close> is
  new.
\<close>

fun counter_incr :: "string \<Rightarrow> (string \<times> int) list \<Rightarrow> (string \<times> int) list" where
  "counter_incr t [] = [(t, 1)]"
| "counter_incr t ((k, c) # kcs) =
     (if k = t then (k, c + 1) # kcs else (k, c) # counter_incr t kcs)"

fun count_items :: "(string \<times> int) list \<Rightarrow> item list \<Rightarrow> (string \<times> int) list" where
  "count_items counter [] = counter"
| "count_items counter ((src, title, link) # items) =
     count_items (fold counter_incr (extract_tokens title) counter) items"

text \<open>
  \<open>Counter.most_common(n)\<close> returns \<open>heapq.nlargest(n, items, key=count)\<close>, which is
  \<open>sorted(items, key=count, reverse=True)[:n]\<close>: a stable sort by descending count, cut
  after \<open>n\<close> entries, and empty when \<open>n\<close> is not positive.
\<close>

definition most_common :: "int \<Rightarrow> (string \<times> int) list \<Rightarrow> (string \<times> int) list" where
  "most_common n counter = take (nat n) (sort_key (\<lambda>(k, c). - c) counter)"

type_synonym related_map = "string \<rightharpoonup> item list"

text \<open>
  The inner loop of \<open>analyze\<close> for one item: for every ranked keyword \<open>k\<close>, in order, the
  item is appended to \<open>related[k]\<close> when \<open>k\<close> is among the item's tokens, the link is not
  empty and the list is shorter than the limit. \<open>related[k]\<close> is only read when the first
  two tests pass, and a missing key would raise \<open>KeyError\<close>.
\<close>

fun relate_item ::
  "int \<Rightarrow> item \<Rightarrow> string set \<Rightarrow> (string \<times> int) list \<Rightarrow> related_map \<Rightarrow> error + related_map" where
  "relate_item limit it toks [] related = Inr related"
| "relate_item limit (src, title, link) toks ((k, c) # top_list) related =
     (if k \<in> toks \<and> link \<noteq> [] then
        (case related k of
           None \<Rightarrow> Inl (KeyError k)
         | Some ev \<Rightarrow>
             if int (length ev) < limit
             then relate_item limit (src, title, link) toks top_list
                    (related(k \<mapsto> ev @ [(src, title, link)]))
             else relate_item limit (src, title, link) toks top_list related)
      else relate_item limit (src, title, link) toks top_list related)"

fun relate_items ::
  "int \<Rightarrow> (string \<times> int) list \<Rightarrow> item list \<Rightarrow> related_map \<Rightarrow> error + related_map" where
  "relate_items limit top_list [] related = Inr related"
| "relate_items limit top_list ((src, title, link) # items) related =
     (case relate_item limit (src, title, link) (set (extract_tokens title)) top_list related of
        Inl e \<Rightarrow> Inl e
      | Inr related' \<Rightarrow> relate_items limit top_list items related')"

definition analyze ::
  "int \<Rightarrow> int \<Rightarrow> item list \<Rightarrow> error + ((string \<times> int) list \<times> related_map)" where
  "analyze TOP_K POST_LIMIT_PER_SOURCE items =
     (let counter = count_items [] items;
          top_list = most_common TOP_K counter;
          related = map_of (map (\<lambda>(k, c). (k, [])) top_list)
      in case relate_items POST_LIMIT_PER_SOURCE top_list items related of
           Inl e \<Rightarrow> Inl e
         | Inr related' \<Rightarrow> Inr (top_list, related'))"

section \<open>Channel resolution\<close>

text \<open>
  \<open>ID_RE\<close> is \<open>\b[CG][A-Z0-9]{8,}\b\<close>. A match starts at a \<open>C\<close> or \<open>G\<close> that follows
  the start of the string or a non-word character. The greedy repetition takes the whole
  run of \<open>[A-Z0-9]\<close>; the closing \<open>\b\<close> holds there when the run ends the string or a
  non-word character follows, and it holds at no shorter repetition, where both
  neighbours are word characters. \<open>id_re_match_at\<close> matches at the head of a string,
  given the character before it; \<open>id_re_search\<close> returns the leftmost match.
\<close>

definition is_id_char :: "char \<Rightarrow> bool" where
  "is_id_char c \<longleftrightarrow> is_upper c \<or> is_digit c"

definition id_re_match_at :: "unicode \<Rightarrow> char option \<Rightarrow> string \<Rightarrow> string option" where
  "id_re_match_at U prev s =
     (case s of
        [] \<Rightarrow> None
      | c # cs \<Rightarrow>
          if (case prev of None \<Rightarrow> True | Some p \<Rightarrow> \<not> is_word U p) \<and>
             (c = CHR ''C'' \<or> c = CHR ''G'')
          then
            (let run = takeWhile is_id_char cs in
             if 8 \<le> length run \<and>
                (case dropWhile is_id_char cs of [] \<Rightarrow> True | d # ds \<Rightarrow> \<not> is_word U d)
             then Some (c # run) else None)
          else None)"

fun id_re_search :: "unicode \<Rightarrow> char option \<Rightarrow> string \<Rightarrow> string option" where
  "id_re_search U prev [] = None"
| "id_re_search U prev (c # cs) =
     (case id_re_match_at U prev (c # cs) of
        Some m \<Rightarrow> Some m
      | None \<Rightarrow> id_re_search U (Some c) cs)"

text \<open>
  \<open>resolve_channel_id\<close> searches \<open>ID_RE\<close> in \<open>s.upper()\<close> and returns the match from
  there. Its last line takes element \<open>0\<close> of the split; on an empty list that is an
  \<open>IndexError\<close>.
\<close>

definition resolve_channel_id :: "unicode \<Rightarrow> string \<Rightarrow> error + string" where
  "resolve_channel_id U raw =
     (if raw = [] then Inl (RuntimeError ''SLACK_CHANNEL_ID is empty'')
      else
        let s = strip U raw in
        case id_re_search U None (str_upper U s) of
          Some m \<Rightarrow> Inr m
        | None \<Rightarrow>
            (case split_ws U (lstrip ''#'' s) of
               [] \<Rightarrow> Inl IndexError
             | t # ts \<Rightarrow> Inr t))"

section \<open>The run\<close>

text \<open>
  A source of the configuration comes with the outcome of fetching and parsing it:
  \<open>Failed e\<close> when an exception \<open>e\<close> was raised inside the \<open>try\<close> block, \<open>Fetched doc\<close>
  otherwise. What the run does to the outside is recorded as a list of events.
\<close>

datatype 'doc fetched = Failed string | Fetched 'doc

datatype event =
    Print string
  | Sleep
  | WriteDigest string
  | WriteIndex string
  | PostParent string
  | PostThread string string

definition parse_html_source :: "unicode \<Rightarrow> string \<Rightarrow> html_doc \<Rightarrow> item list" where
  "parse_html_source U name html =
     (if name = ''qiita_trend'' then parse_qiita_trend U html
      else if name = ''stackoverflow_hot'' then parse_stackoverflow_hot U html
      else if name = ''github_trending'' then parse_github_trending U html
      else [])"

fun collect_html ::
  "unicode \<Rightarrow> (string \<times> html_doc fetched) list \<Rightarrow> item list \<times> event list \<Rightarrow>
   item list \<times> event list" where
  "collect_html U [] st = st"
| "collect_html U ((name, Failed e) # sources) (items, evs) =
     collect_html U sources
       (items, evs @ [Print (''[warn] HTML fetch failed '' @ name @ '': '' @ e)])"
| "collect_html U ((name, Fetched html) # sources) (items, evs) =
     collect_html U sources (items @ parse_html_source U name html, evs @ [Sleep])"

fun collect_rss ::
  "unicode \<Rightarrow> (string \<times> feed_entry list fetched) list \<Rightarrow> item list \<times> event list \<Rightarrow>
   item list \<times> event list" where
  "collect_rss U [] st = st"
| "collect_rss U ((name, Failed e) # sources) (items, evs) =
     collect_rss U sources
       (items, evs @ [Print (''[warn] RSS fetch failed '' @ name @ '': '' @ e)])"
| "collect_rss U ((name, Fetched xml) # sources) (items, evs) =
     collect_rss U sources (items @ parse_rss_generic U xml name, evs @ [Sleep])"

text \<open>The two loops of \<open>main\<close> that fill \<open>items\<close>: the HTML sources, then the feeds.\<close>

definition collect ::
  "unicode \<Rightarrow> (string \<times> html_doc fetched) list \<Rightarrow> (string \<times> feed_entry list fetched) list \<Rightarrow>
   item list \<times> event list" where
  "collect U hs rs = collect_rss U rs (collect_html U hs ([], []))"

text \<open>
  The inputs of a run: the two environment variables (empty when unset), the two
  configured constants, the sources with their outcomes, the date label, and the
  answers of the chat service to the parent post (\<open>Inl\<close> its error, \<open>Inr\<close> the timestamp)
  and to the thread post of a keyword (\<open>Some\<close> its error).
\<close>

record world =
  env_token :: string
  env_channel :: string
  top_k :: int
  post_limit :: int
  html_sources :: "(string \<times> html_doc fetched) list"
  rss_sources :: "(string \<times> feed_entry list fetched) list"
  today :: string
  parent_post :: "string + string"
  thread_post :: "string \<Rightarrow> string option"

definition must_env :: "string \<Rightarrow> string \<Rightarrow> error + string" where
  "must_env name v =
     (if v = [] then
        Inl (RuntimeError
              (''ENV '' @ [CHR 0x27] @ name @ [CHR 0x27] @ '' is required but not set''))
      else Inr v)"

text \<open>\<open>save_markdown\<close> writes the digest document and then the index document.\<close>

definition save_markdown :: "string \<Rightarrow> event list" where
  "save_markdown date_label =
     [WriteDigest (''docs/'' @ date_label @ ''.md''), WriteIndex ''docs/index.md'']"

fun post_threads :: "world \<Rightarrow> string \<Rightarrow> related_map \<Rightarrow> (string \<times> int) list \<Rightarrow> event list" where
  "post_threads w channel_id related_map [] = []"
| "post_threads w channel_id related_map ((k, c) # top_list) =
     (let links = take 5 (case related_map k of None \<Rightarrow> [] | Some ev \<Rightarrow> ev) in
      if links = [] then post_threads w channel_id related_map top_list
      else
        PostThread channel_id k #
        (case thread_post w k of
           None \<Rightarrow> []
         | Some err \<Rightarrow> [Print (''[warn] thread post failed for '' @ k @ '': '' @ err)]) @
        post_threads w channel_id related_map top_list)"

definition post_to_slack ::
  "unicode \<Rightarrow> world \<Rightarrow> (string \<times> int) list \<Rightarrow> related_map \<Rightarrow> event list \<times> (error + unit)" where
  "post_to_slack U w top_list related_map =
     (case resolve_channel_id U (env_channel w) of
        Inl e \<Rightarrow> ([], Inl e)
      | Inr channel_id \<Rightarrow>
          (case parent_post w of
             Inl err \<Rightarrow>
               ([PostParent channel_id], Inl (RuntimeError (''chat.postMessage failed: '' @ err)))
           | Inr thread_ts \<Rightarrow>
               (PostParent channel_id # post_threads w channel_id related_map (take 3 top_list),
                Inr ())))"

definition main :: "unicode \<Rightarrow> world \<Rightarrow> event list \<times> (error + unit)" where
  "main U w =
     (case must_env ''SLACK_BOT_TOKEN'' (env_token w) of
        Inl e \<Rightarrow> ([], Inl e)
      | Inr tok \<Rightarrow>
     (case must_env ''SLACK_CHANNEL_ID'' (env_channel w) of
        Inl e \<Rightarrow> ([], Inl e)
      | Inr chan \<Rightarrow>
     (case collect U (html_sources w) (rss_sources w) of (items, evs) \<Rightarrow>
        if items = [] then
          (evs @ [Print ''No items fetched. Skipping Slack post and Pages update.''], Inr ())
        else
          (case analyze (top_k w) (post_limit w) items of
             Inl e \<Rightarrow> (evs, Inl e)
           | Inr (top_list, related_map) \<Rightarrow>
               if top_list = [] then
                 (evs @ [Print ''No keywords extracted. Skipping post.''], Inr ())
               else
                 (case post_to_slack U w top_list related_map of
                    (posts, Inl e) \<Rightarrow> (evs @ save_markdown (today w) @ posts, Inl e)
                  | (posts, Inr u) \<Rightarrow>
                      (evs @ save_markdown (today w) @ posts @ [Print ''Done.''], Inr ()))))))"

chapter \<open>Properties\<close>

section \<open>Notions used in the statements\<close>

text \<open>The identity key of an item: \<open>(lowercased(title), link)\<close>.\<close>

fun item_key :: "unicode \<Rightarrow> item \<Rightarrow> string \<times> string" where
  "item_key U (src, title, link) = (str_lower U title, link)"

text \<open>The loop of \<open>dedup\<close> without its output accumulator.\<close>

fun dedup_from :: "unicode \<Rightarrow> (string \<times> string) set \<Rightarrow> item list \<Rightarrow> item list" where
  "dedup_from U seen [] = []"
| "dedup_from U seen (x # xs) =
     (if item_key U x \<in> seen then dedup_from U seen xs
      else x # dedup_from U (insert (item_key U x) seen) xs)"



text \<open>The tokens of all titles in scan order, and the occurrences of a token in them.\<close>

definition all_tokens :: "item list \<Rightarrow> string list" where
  "all_tokens items = concat (map (\<lambda>(src, title, link). extract_tokens title) items)"

definition occurrences :: "item list \<Rightarrow> string \<Rightarrow> int" where
  "occurrences items k =
     sum_list (map (\<lambda>(src, title, link). int (count_list (extract_tokens title) k)) items)"

text \<open>The token-count table: every token of the scan with its number of occurrences.\<close>

definition count_table :: "string list \<Rightarrow> (string \<times> int) set" where
  "count_table toks = (\<lambda>t. (t, int (count_list toks t))) ` set toks"

text \<open>
  \<open>first_index toks t\<close> is the position at which \<open>t\<close> first occurs, which is when it is
  inserted into the table; \<open>reach_index toks t\<close> is the position of its last occurrence,
  which is when it reaches its final count.
\<close>

definition first_index :: "string list \<Rightarrow> string \<Rightarrow> nat" where
  "first_index toks t = length (takeWhile (\<lambda>x. x \<noteq> t) toks)"

definition reach_index :: "string list \<Rightarrow> string \<Rightarrow> nat" where
  "reach_index toks t = length toks - 1 - first_index (rev toks) t"

text \<open>An entry ranks before another: a higher count, or the same count and an earlier
  first occurrence.\<close>

definition ranks_before :: "string list \<Rightarrow> string \<times> int \<Rightarrow> string \<times> int \<Rightarrow> bool" where
  "ranks_before toks a b \<longleftrightarrow>
     snd b < snd a \<or> (snd a = snd b \<and> first_index toks (fst a) < first_index toks (fst b))"

text \<open>The two components of the result of \<open>analyze\<close>.\<close>

definition ranked :: "int \<Rightarrow> int \<Rightarrow> item list \<Rightarrow> error + (string \<times> int) list" where
  "ranked TOP_K POST_LIMIT_PER_SOURCE items =
     (case analyze TOP_K POST_LIMIT_PER_SOURCE items of
        Inl e \<Rightarrow> Inl e
      | Inr (top_list, related) \<Rightarrow> Inr top_list)"

definition evidence :: "int \<Rightarrow> int \<Rightarrow> item list \<Rightarrow> string \<Rightarrow> error + item list option" where
  "evidence TOP_K POST_LIMIT_PER_SOURCE items k =
     (case analyze TOP_K POST_LIMIT_PER_SOURCE items of
        Inl e \<Rightarrow> Inl e
      | Inr (top_list, related) \<Rightarrow> Inr (related k))"

text \<open>An item is eligible as evidence for \<open>k\<close>.\<close>

fun eligible :: "string \<Rightarrow> item \<Rightarrow> bool" where
  "eligible k (src, title, link) \<longleftrightarrow> link \<noteq> [] \<and> k \<in> set (extract_tokens title)"

text \<open>The events that produce the digest: the two documents and the posts.\<close>

fun is_artifact :: "event \<Rightarrow> bool" where
  "is_artifact (Print msg) = False"
| "is_artifact Sleep = False"
| "is_artifact (WriteDigest f) = True"
| "is_artifact (WriteIndex f) = True"
| "is_artifact (PostParent ch) = True"
| "is_artifact (PostThread ch k) = True"

text \<open>What one source contributes to the collected items.\<close>

fun html_source_items :: "unicode \<Rightarrow> string \<times> html_doc fetched \<Rightarrow> item list" where
  "html_source_items U (name, Failed e) = []"
| "html_source_items U (name, Fetched html) = parse_html_source U name html"

fun rss_source_items :: "unicode \<Rightarrow> string \<times> feed_entry list fetched \<Rightarrow> item list" where
  "rss_source_items U (name, Failed e) = []"
| "rss_source_items U (name, Fetched xml) = parse_rss_generic U xml name"

text \<open>A run whose only item yields no keyword.\<close>

definition quiet_world :: world where
  "quiet_world =
     \<lparr>env_token = ''xoxb-1'', env_channel = ''C12345678'', top_k = 10, post_limit = 5,
      html_sources = [(''qiita_trend'', Failed ''timeout'')],
      rss_sources = [(''feedA'', Fetched [(Some ''The 2024'', Some (None, ''http://x/1''))])],
      today = ''2026-01-01'', parent_post = Inr ''1.0'', thread_post = (\<lambda>k. None)\<rparr>"

text \<open>
  A value of the Unicode parameters for the concrete runs below, after the Latin-1 block
  U+0080 to U+00FF: NEL (U+0085) and the no-break space (U+00A0) are whitespace; the
  letters, the superscript digits and the fractions of the block are word characters;
  the capital letters U+00C0 to U+00DE (without the multiplication sign) have their
  lower-case forms 32 places on, and the other way round (without the division sign);
  the sharp s (U+00DF) is \<open>SS\<close> in upper case. The micro sign and the y with diaeresis,
  whose upper-case forms lie outside the block, stand for them: like these they are
  word characters outside \<open>[A-Z0-9]\<close>, which is all that a search of \<open>ID_RE\<close> sees of
  them.
\<close>

definition latin1_lower_char :: "char \<Rightarrow> char" where
  "latin1_lower_char c =
     (if is_upper c \<or> (192 \<le> ord c \<and> ord c \<le> 222 \<and> ord c \<noteq> 215)
      then char_of (ord c + 32) else c)"

definition latin1_upper_char :: "char \<Rightarrow> string" where
  "latin1_upper_char c =
     (if ord c = 223 then ''SS''
      else if is_lower c \<or> (224 \<le> ord c \<and> ord c \<le> 254 \<and> ord c \<noteq> 247)
      then [char_of (ord c - 32)] else [c])"

definition latin1 :: unicode where
  "latin1 =
     \<lparr>uni_lower = map latin1_lower_char,
      uni_upper = (\<lambda>s. concat (map latin1_upper_char s)),
      uni_space = (\<lambda>c. ord c = 133 \<or> ord c = 160),
      uni_word = (\<lambda>c. ord c \<in> {170, 178, 179, 181, 185, 186, 188, 189, 190} \<or>
                       (192 \<le> ord c \<and> ord c \<noteq> 215 \<and> ord c \<noteq> 247))\<rparr>"

section \<open>Deduplication\<close>

lemma dedup_loop_from: "dedup_loop U seen out items = out @ dedup_from U seen items"
proof (induction items arbitrary: seen out)
  case Nil
  show ?case by simp
next
  case (Cons x xs)
  obtain src title link where x: "x = (src, title, link)"
    by (cases x) auto
  show ?case
    by (simp add: x Cons.IH Let_def)
qed

lemma dedup_eq_from: "dedup U items = dedup_from U {} items"
  by (simp add: dedup_def dedup_loop_from)

lemma dedup_from_subseq: "subseq (dedup_from U seen xs) xs"
  by (induction xs arbitrary: seen) auto

lemma dedup_from_keys: "item_key U ` set (dedup_from U seen xs) = item_key U ` set xs - seen"
proof (induction xs arbitrary: seen)
  case Nil
  show ?case by simp
next
  case (Cons x xs)
  show ?case
  proof (cases "item_key U x \<in> seen")
    case True
    then show ?thesis using Cons.IH [of seen] by auto
  next
    case False
    then show ?thesis using Cons.IH [of "insert (item_key U x) seen"] by auto
  qed
qed

lemma dedup_from_distinct: "distinct (map (item_key U) (dedup_from U seen xs))"
proof (induction xs arbitrary: seen)
  case Nil
  show ?case by simp
next
  case (Cons x xs)
  have "item_key U x \<notin> item_key U ` set (dedup_from U (insert (item_key U x) seen) xs)"
    by (simp add: dedup_from_keys)
  then show ?case using Cons.IH by simp
qed

lemma dedup_from_first:
  "x \<in> set xs \<Longrightarrow> item_key U x \<notin> seen \<Longrightarrow>
   find (\<lambda>y. item_key U y = item_key U x) (dedup_from U seen xs) =
   find (\<lambda>y. item_key U y = item_key U x) xs"
proof (induction xs arbitrary: seen)
  case Nil
  then show ?case by simp
next
  case (Cons a xs)
  show ?case
  proof (cases "item_key U a = item_key U x")
    case True
    then show ?thesis using Cons.prems by simp
  next
    case False
    then have mem: "x \<in> set xs" using Cons.prems by auto
    show ?thesis
    proof (cases "item_key U a \<in> seen")
      case True
      then show ?thesis using False Cons.IH [OF mem Cons.prems(2)] by simp
    next
      case notin: False
      have "item_key U x \<notin> insert (item_key U a) seen"
        using False Cons.prems(2) by auto
      then show ?thesis using False notin Cons.IH [OF mem] by simp
    qed
  qed
qed

lemma dedup_from_fixed:
  "distinct (map (item_key U) ys) \<Longrightarrow> item_key U ` set ys \<inter> seen = {} \<Longrightarrow> dedup_from U seen ys = ys"
proof (induction ys arbitrary: seen)
  case Nil
  show ?case by simp
next
  case (Cons y ys)
  have "item_key U ` set ys \<inter> insert (item_key U y) seen = {}"
    using Cons.prems by auto
  then have "dedup_from U (insert (item_key U y) seen) ys = ys"
    using Cons.IH Cons.prems(1) by simp
  then show ?case using Cons.prems(2) by auto
qed

text \<open>
  C5. For every input sequence, and whatever \<open>str.lower\<close> does to a title, \<open>dedup\<close>
  returns a subsequence of its input in the original order, no two items of the output
  have the same key \<open>(lowercased(title), link)\<close>, the output has the keys of the input,
  and for each key the output keeps the first item of the input bearing it.
\<close>

theorem dedup_first_occurrences:
  "subseq (dedup U items) items \<and>
   distinct (map (item_key U) (dedup U items)) \<and>
   item_key U ` set (dedup U items) = item_key U ` set items \<and>
   (\<forall>x \<in> set items.
      find (\<lambda>y. item_key U y = item_key U x) (dedup U items) =
      find (\<lambda>y. item_key U y = item_key U x) items)"
proof -
  have "subseq (dedup U items) items"
    by (simp add: dedup_eq_from dedup_from_subseq)
  moreover have "distinct (map (item_key U) (dedup U items))"
    by (simp add: dedup_eq_from dedup_from_distinct)
  moreover have "item_key U ` set (dedup U items) = item_key U ` set items"
    by (simp add: dedup_eq_from dedup_from_keys)
  moreover have "find (\<lambda>y. item_key U y = item_key U x) (dedup U items) =
      find (\<lambda>y. item_key U y = item_key U x) items" if "x \<in> set items" for x
    using that by (simp add: dedup_eq_from dedup_from_first)
  ultimately show ?thesis by blast
qed

theorem dedup_first_occurrences_witness:
  "dedup latin1
     [(''a'', [CHR 0xC9, CHR ''t'', CHR 0xE9], ''u''), (''b'', [CHR 0xE9, CHR ''t'', CHR 0xE9], ''u''),
      (''Qiita'', ''Go'', ''u2'')]
     = [(''a'', [CHR 0xC9, CHR ''t'', CHR 0xE9], ''u''), (''Qiita'', ''Go'', ''u2'')] \<and>
   find (\<lambda>y. item_key latin1 y = item_key latin1 (''b'', [CHR 0xE9, CHR ''t'', CHR 0xE9], ''u''))
     (dedup latin1
       [(''a'', [CHR 0xC9, CHR ''t'', CHR 0xE9], ''u''), (''b'', [CHR 0xE9, CHR ''t'', CHR 0xE9], ''u''),
        (''Qiita'', ''Go'', ''u2'')])
     = Some (''a'', [CHR 0xC9, CHR ''t'', CHR 0xE9], ''u'')"
proof -
  let ?a = "(''a'', [CHR 0xC9, CHR ''t'', CHR 0xE9], ''u'')"
  let ?b = "(''b'', [CHR 0xE9, CHR ''t'', CHR 0xE9], ''u'')"
  let ?xs = "[?a, ?b, (''Qiita'', ''Go'', ''u2'')]"
  have mem: "?b \<in> set ?xs" by simp
  have run: "dedup latin1 ?xs = [?a, (''Qiita'', ''Go'', ''u2'')]"
    by code_simp
  have first: "find (\<lambda>y. item_key latin1 y = item_key latin1 ?b) ?xs = Some ?a"
    by code_simp
  from dedup_first_occurrences [of latin1 ?xs] mem
  have "find (\<lambda>y. item_key latin1 y = item_key latin1 ?b) (dedup latin1 ?xs) =
        find (\<lambda>y. item_key latin1 y = item_key latin1 ?b) ?xs"
    by blast
  with run first show ?thesis by simp
qed

text \<open>
  C9. \<open>dedup\<close> is idempotent: applying it to its own output changes nothing.
\<close>

theorem dedup_idempotent: "dedup U (dedup U xs) = dedup U xs"
proof -
  have "distinct (map (item_key U) (dedup_from U {} xs))" by (rule dedup_from_distinct)
  then have "dedup_from U {} (dedup_from U {} xs) = dedup_from U {} xs"
    by (rule dedup_from_fixed) simp
  then show ?thesis by (simp add: dedup_eq_from)
qed

section \<open>Token extraction\<close>














text \<open>Every match of \<open>TOKEN_RE\<close> is a string of ASCII characters, on which the
  lower-case form does not depend on the Unicode tables.\<close>

lemma is_token_char_ascii: "is_token_char c \<Longrightarrow> is_ascii c"
  by (auto simp: is_token_char_def is_alnum_def is_upper_def is_lower_def is_digit_def
      is_ascii_def ord_def)

lemma token_re_match_ascii:
  assumes "token_re_match s = Some (w, rest)"
  shows "list_all is_ascii w"
proof -
  from assms obtain c cs where c: "is_alnum c" and w: "w = c # takeWhile is_token_char (take 30 cs)"
    by (auto simp: token_re_match_def Let_def split: list.splits if_splits)
  have "is_ascii c" using c by (simp add: is_token_char_ascii is_token_char_def)
  moreover have "\<forall>x \<in> set (takeWhile is_token_char (take 30 cs)). is_ascii x"
    by (auto dest: set_takeWhileD intro: is_token_char_ascii)
  ultimately show ?thesis by (simp add: w list_all_iff)
qed

lemma finditer_ascii: "w \<in> set (finditer s) \<Longrightarrow> list_all is_ascii w"
proof (induction s rule: finditer.induct)
  case 1
  then show ?case by simp
next
  case (2 c cs)
  show ?case
  proof (cases "token_re_match (c # cs)")
    case None
    then show ?thesis using 2 by simp
  next
    case (Some m)
    obtain v rest where m: "m = (v, rest)" by (cases m)
    show ?thesis
    proof (cases "w = v")
      case True
      then show ?thesis using token_re_match_ascii Some m by blast
    next
      case False
      then have "w \<in> set (finditer rest)" using "2.prems" Some m by simp
      then show ?thesis using "2.IH"(2) Some m by simp
    qed
  qed
qed

lemma str_lower_match: "w \<in> set (finditer text) \<Longrightarrow> str_lower U w = lower w"
  by (simp add: str_lower_def finditer_ascii)



section \<open>Keyword ranking\<close>

lemma counter_incr_keys_old:
  "t \<in> fst ` set kcs \<Longrightarrow> map fst (counter_incr t kcs) = map fst kcs"
  by (induction kcs) force+

lemma counter_incr_keys_new:
  "t \<notin> fst ` set kcs \<Longrightarrow> map fst (counter_incr t kcs) = map fst kcs @ [t]"
  by (induction kcs) auto

lemma counter_incr_keys:
  "map fst (counter_incr t kcs) =
     (if t \<in> fst ` set kcs then map fst kcs else map fst kcs @ [t])"
  by (simp add: counter_incr_keys_old counter_incr_keys_new)

lemma counter_incr_map_of:
  "map_of (counter_incr t kcs) k =
     (if k = t then Some (case map_of kcs t of None \<Rightarrow> 1 | Some c \<Rightarrow> c + 1)
      else map_of kcs k)"
  by (induction kcs) auto

lemma count_items_fold: "count_items counter items = fold counter_incr (all_tokens items) counter"
  by (induction items arbitrary: counter) (auto simp: all_tokens_def)

lemma counter_keys: "fst ` set (fold counter_incr toks []) = set toks"
proof (induction toks rule: rev_induct)
  case Nil
  show ?case by simp
next
  case (snoc t toks)
  have "set (map fst (counter_incr t (fold counter_incr toks []))) = insert t (set toks)"
    unfolding counter_incr_keys using snoc.IH by auto
  then show ?case by simp
qed

lemma counter_distinct: "distinct (map fst (fold counter_incr toks []))"
proof (induction toks rule: rev_induct)
  case Nil
  show ?case by simp
next
  case (snoc t toks)
  have "distinct (map fst (counter_incr t (fold counter_incr toks [])))"
    unfolding counter_incr_keys using snoc.IH by auto
  then show ?case by simp
qed

lemma counter_counts:
  "map_of (fold counter_incr toks []) k =
     (if k \<in> set toks then Some (int (count_list toks k)) else None)"
proof (induction toks arbitrary: k rule: rev_induct)
  case Nil
  show ?case by simp
next
  case (snoc t toks)
  show ?case
    by (auto simp: counter_incr_map_of snoc.IH)
qed

lemma counter_set: "set (fold counter_incr toks []) = count_table toks"
proof -
  have "(k, c) \<in> set (fold counter_incr toks []) \<longleftrightarrow> (k, c) \<in> count_table toks" for k c
  proof -
    have "(k, c) \<in> set (fold counter_incr toks []) \<longleftrightarrow>
          map_of (fold counter_incr toks []) k = Some c"
      using counter_distinct [of toks] by simp
    also have "\<dots> \<longleftrightarrow> k \<in> set toks \<and> c = int (count_list toks k)"
      by (auto simp: counter_counts)
    also have "\<dots> \<longleftrightarrow> (k, c) \<in> count_table toks"
      by (auto simp: count_table_def)
    finally show ?thesis .
  qed
  then show ?thesis by auto
qed

lemma first_index_snoc_old: "a \<in> set toks \<Longrightarrow> first_index (toks @ [t]) a = first_index toks a"
  by (simp add: first_index_def)

lemma first_index_snoc_new: "t \<notin> set toks \<Longrightarrow> first_index (toks @ [t]) t = length toks"
proof -
  assume "t \<notin> set toks"
  then have "takeWhile (\<lambda>x. x \<noteq> t) (toks @ [t]) = toks @ takeWhile (\<lambda>x. x \<noteq> t) [t]"
    by (intro takeWhile_append2) auto
  then show ?thesis by (simp add: first_index_def)
qed

lemma first_index_less: "a \<in> set toks \<Longrightarrow> first_index toks a < length toks"
  unfolding first_index_def
  by (induction toks) auto

lemma counter_first_order:
  "sorted_wrt (\<lambda>a b. first_index toks a < first_index toks b)
     (map fst (fold counter_incr toks []))"
proof (induction toks rule: rev_induct)
  case Nil
  show ?case by simp
next
  case (snoc t toks)
  let ?keys = "map fst (fold counter_incr toks [])"
  have keys: "set ?keys = set toks" using counter_keys [of toks] by simp
  have old: "sorted_wrt (\<lambda>a b. first_index (toks @ [t]) a < first_index (toks @ [t]) b) ?keys"
    using snoc.IH
    by (rule sorted_wrt_mono_rel [rotated]) (simp add: counter_keys first_index_snoc_old)
  show ?case
  proof (cases "t \<in> set toks")
    case True
    then show ?thesis using old keys by (simp add: counter_incr_keys)
  next
    case False
    have "first_index (toks @ [t]) a < first_index (toks @ [t]) t" if "a \<in> set toks" for a
      using that False by (simp add: first_index_snoc_old first_index_snoc_new first_index_less)
    then show ?thesis using old keys False
      by (simp add: counter_incr_keys sorted_wrt_append)
  qed
qed

text \<open>
  A stable sort of a list that is in order of \<open>g\<close> orders it by the key \<open>f\<close> first and by
  \<open>g\<close> among equal keys.
\<close>

lemma insort_ranks:
  assumes "sorted_wrt (\<lambda>a b. f a < f b \<or> (f a = f b \<and> g a < g b)) ys"
    and "\<forall>y \<in> set ys. (g x :: nat) < g y"
  shows "sorted_wrt (\<lambda>a b. (f a :: int) < f b \<or> (f a = f b \<and> g a < g b)) (insort_key f x ys)"
  using assms
proof (induction ys)
  case Nil
  show ?case by simp
next
  case (Cons y ys)
  show ?case
  proof (cases "f x \<le> f y")
    case True
    have "f x < f z \<or> (f x = f z \<and> g x < g z)" if "z \<in> set (y # ys)" for z
    proof -
      have "f y \<le> f z" using Cons.prems(1) that by auto
      then have "f x \<le> f z" using True by simp
      moreover have "g x < g z" using Cons.prems(2) that by auto
      ultimately show ?thesis by auto
    qed
    then show ?thesis using True Cons.prems(1) by simp
  next
    case False
    have "sorted_wrt (\<lambda>a b. f a < f b \<or> (f a = f b \<and> g a < g b)) (insort_key f x ys)"
      using Cons.IH Cons.prems by simp
    moreover have "\<forall>z \<in> set (insort_key f x ys). f y < f z \<or> (f y = f z \<and> g y < g z)"
      using Cons.prems(1) False by (auto simp: set_insort_key)
    ultimately show ?thesis using False by simp
  qed
qed

lemma sort_key_ranks:
  "sorted_wrt (\<lambda>a b. (g a :: nat) < g b) xs \<Longrightarrow>
   sorted_wrt (\<lambda>a b. (f a :: int) < f b \<or> (f a = f b \<and> g a < g b)) (sort_key f xs)"
proof (induction xs)
  case Nil
  show ?case by simp
next
  case (Cons x xs)
  have "sorted_wrt (\<lambda>a b. f a < f b \<or> (f a = f b \<and> g a < g b)) (sort_key f xs)"
    using Cons by simp
  moreover have "\<forall>y \<in> set (sort_key f xs). g x < g y"
    using Cons.prems by simp
  ultimately show ?case
    by (simp add: insort_ranks)
qed

lemma counter_sorted_ranks:
  "sorted_wrt (ranks_before toks) (sort_key (\<lambda>(k, c). - c) (fold counter_incr toks []))"
proof -
  let ?tab = "fold counter_incr toks []"
  have "sorted_wrt (\<lambda>a b. first_index toks (fst a) < first_index toks (fst b)) ?tab"
    using counter_first_order [of toks] by (simp add: sorted_wrt_map)
  then have "sorted_wrt (\<lambda>a b. (case a of (k, c) \<Rightarrow> - c) < (case b of (k, c) \<Rightarrow> - c) \<or>
       ((case a of (k, c) \<Rightarrow> - c) = (case b of (k, c) \<Rightarrow> - c) \<and>
        first_index toks (fst a) < first_index toks (fst b)))
     (sort_key (\<lambda>(k, c). - c) ?tab)"
    by (rule sort_key_ranks)
  then show ?thesis
    by (rule sorted_wrt_mono_rel [rotated]) (auto simp: ranks_before_def split: prod.splits)
qed

lemma most_common_spec:
  fixes toks n
  defines "top_list \<equiv> most_common n (fold counter_incr toks [])"
  shows "set top_list \<subseteq> count_table toks"
    and "distinct (map fst top_list)"
    and "length top_list = min (nat n) (card (count_table toks))"
    and "sorted_wrt (ranks_before toks) top_list"
    and "\<forall>e \<in> count_table toks - set top_list. \<forall>r \<in> set top_list. ranks_before toks r e"
proof -
  let ?tab = "fold counter_incr toks []"
  let ?sorted = "sort_key (\<lambda>(k, c). - c) ?tab"
  have top: "top_list = take (nat n) ?sorted"
    by (simp add: top_list_def most_common_def)
  have set_sorted: "set ?sorted = count_table toks"
    by (simp add: counter_set)
  have dist_keys: "distinct (map fst ?sorted)"
    using counter_distinct [of toks] by (simp add: distinct_map)
  show "set top_list \<subseteq> count_table toks"
    using set_take_subset [of "nat n" ?sorted] unfolding top set_sorted .
  show "distinct (map fst top_list)"
    using dist_keys by (simp add: top take_map [symmetric])
  have "distinct ?tab" using counter_distinct [of toks] by (rule distinct_map [THEN iffD1, THEN conjunct1])
  then have "length ?tab = card (count_table toks)"
    using distinct_card [of ?tab] by (simp add: counter_set)
  then show "length top_list = min (nat n) (card (count_table toks))"
    by (simp add: top min.commute)
  have srt: "sorted_wrt (ranks_before toks) (take (nat n) ?sorted @ drop (nat n) ?sorted)"
    using counter_sorted_ranks [of toks] by simp
  then show "sorted_wrt (ranks_before toks) top_list"
    unfolding top sorted_wrt_append by blast
  have "distinct ?sorted" using dist_keys by (rule distinct_map [THEN iffD1, THEN conjunct1])
  then have "distinct (take (nat n) ?sorted @ drop (nat n) ?sorted)" by simp
  then have disj: "set (take (nat n) ?sorted) \<inter> set (drop (nat n) ?sorted) = {}"
    unfolding distinct_append by blast
  have "set (take (nat n) ?sorted) \<union> set (drop (nat n) ?sorted) = count_table toks"
    using set_append [of "take (nat n) ?sorted" "drop (nat n) ?sorted"] set_sorted by simp
  then have "count_table toks - set top_list \<subseteq> set (drop (nat n) ?sorted)"
    unfolding top by blast
  then show "\<forall>e \<in> count_table toks - set top_list. \<forall>r \<in> set top_list. ranks_before toks r e"
    using srt unfolding top sorted_wrt_append by blast
qed

subsection \<open>The evidence loop in closed form\<close>

lemma relate_item_closed:
  assumes "distinct (map fst top_list)" and "\<forall>k \<in> fst ` set top_list. related k \<noteq> None"
  shows "\<exists>related'. relate_item limit (src, title, link) toks top_list related = Inr related' \<and>
           (\<forall>k. related' k =
              (if k \<in> fst ` set top_list \<and> k \<in> toks \<and> link \<noteq> [] \<and>
                  int (length (the (related k))) < limit
               then Some (the (related k) @ [(src, title, link)]) else related k))"
  using assms
proof (induction top_list arbitrary: related)
  case Nil
  show ?case by simp
next
  case (Cons kc top_list)
  obtain k c where kc: "kc = (k, c)" by (cases kc)
  from Cons.prems obtain ev where ev: "related k = Some ev" by (auto simp: kc)
  have fresh: "k \<notin> fst ` set top_list" and dist: "distinct (map fst top_list)"
    using Cons.prems(1) by (simp_all add: kc)
  define related1 where "related1 =
    (if k \<in> toks \<and> link \<noteq> [] \<and> int (length ev) < limit
     then related(k \<mapsto> ev @ [(src, title, link)]) else related)"
  have step: "relate_item limit (src, title, link) toks (kc # top_list) related =
              relate_item limit (src, title, link) toks top_list related1"
    by (simp add: kc ev related1_def)
  have "\<forall>k' \<in> fst ` set top_list. related1 k' \<noteq> None"
    using Cons.prems(2) by (simp add: related1_def kc)
  from Cons.IH [OF dist this] obtain related' where
    res: "relate_item limit (src, title, link) toks top_list related1 = Inr related'" and
    val: "\<And>k'. related' k' =
        (if k' \<in> fst ` set top_list \<and> k' \<in> toks \<and> link \<noteq> [] \<and>
            int (length (the (related1 k'))) < limit
         then Some (the (related1 k') @ [(src, title, link)]) else related1 k')"
    by blast
  have "related' k' =
      (if k' \<in> fst ` set (kc # top_list) \<and> k' \<in> toks \<and> link \<noteq> [] \<and>
          int (length (the (related k'))) < limit
       then Some (the (related k') @ [(src, title, link)]) else related k')" for k'
  proof (cases "k' = k")
    case True
    then show ?thesis using fresh by (simp add: val related1_def ev kc)
  next
    case False
    then show ?thesis by (simp add: val related1_def kc)
  qed
  with step res show ?case by simp
qed

lemma relate_items_closed:
  assumes "distinct (map fst top_list)" and "\<forall>k \<in> fst ` set top_list. related k \<noteq> None"
  shows "\<exists>related'. relate_items limit top_list items related = Inr related' \<and>
           (\<forall>k. related' k =
              (if k \<in> fst ` set top_list
               then Some (the (related k) @
                     take (nat (limit - int (length (the (related k)))))
                       (filter (eligible k) items))
               else related k))"
  using assms(2)
proof (induction items arbitrary: related)
  case Nil
  then show ?case by auto
next
  case (Cons x items)
  obtain src title link where x: "x = (src, title, link)" by (cases x) auto
  from relate_item_closed [OF assms(1) Cons.prems, of limit src title link "set (extract_tokens title)"]
  obtain related1 where
    one: "relate_item limit (src, title, link) (set (extract_tokens title)) top_list related
            = Inr related1" and
    val1: "\<And>k. related1 k =
      (if k \<in> fst ` set top_list \<and> k \<in> set (extract_tokens title) \<and> link \<noteq> [] \<and>
          int (length (the (related k))) < limit
       then Some (the (related k) @ [(src, title, link)]) else related k)"
    by blast
  have "\<forall>k \<in> fst ` set top_list. related1 k \<noteq> None"
    using Cons.prems by (simp add: val1)
  from Cons.IH [OF this] obtain related' where
    res: "relate_items limit top_list items related1 = Inr related'" and
    val: "\<And>k. related' k =
      (if k \<in> fst ` set top_list
       then Some (the (related1 k) @
             take (nat (limit - int (length (the (related1 k))))) (filter (eligible k) items))
       else related1 k)"
    by blast
  have "related' k =
      (if k \<in> fst ` set top_list
       then Some (the (related k) @
             take (nat (limit - int (length (the (related k))))) (filter (eligible k) (x # items)))
       else related k)" for k
  proof (cases "k \<in> fst ` set top_list")
    case False
    then show ?thesis by (simp add: val val1)
  next
    case True
    show ?thesis
    proof (cases "eligible k x \<and> int (length (the (related k))) < limit")
      case adds: True
      then have r1: "related1 k = Some (the (related k) @ [x])"
        using True by (simp add: val1 x)
      have "nat (limit - int (length (the (related k)))) =
            Suc (nat (limit - int (length (the (related k) @ [x]))))"
        using adds by auto
      then show ?thesis using True adds by (simp add: val r1)
    next
      case skips: False
      then have r1: "the (related1 k) = the (related k)"
        using True by (auto simp: val1 x)
      show ?thesis
      proof (cases "eligible k x")
        case True
        then have "nat (limit - int (length (the (related k)))) = 0" using skips by simp
        then show ?thesis using \<open>k \<in> fst ` set top_list\<close> by (simp add: val r1)
      next
        case False
        then show ?thesis using \<open>k \<in> fst ` set top_list\<close> by (simp add: val r1)
      qed
    qed
  qed
  with one res show ?case by (simp add: x)
qed

lemma related_init: "map_of (map (\<lambda>(k, c). (k, [])) xs) k = (if k \<in> fst ` set xs then Some [] else None)"
  by (induction xs) auto

text \<open>
  \<open>analyze\<close> raises no error: it returns the ranked list and, for each ranked keyword,
  the first eligible items up to the limit.
\<close>

lemma analyze_closed:
  "\<exists>related. analyze TOP_K POST_LIMIT_PER_SOURCE items =
       Inr (most_common TOP_K (fold counter_incr (all_tokens items) []), related) \<and>
     (\<forall>k. related k =
        (if k \<in> fst ` set (most_common TOP_K (fold counter_incr (all_tokens items) []))
         then Some (take (nat POST_LIMIT_PER_SOURCE) (filter (eligible k) items)) else None))"
proof -
  let ?top = "most_common TOP_K (fold counter_incr (all_tokens items) [])"
  let ?init = "map_of (map (\<lambda>(k, c). (k, [])) ?top) :: related_map"
  have dist: "distinct (map fst ?top)" by (rule most_common_spec(2))
  have "\<forall>k \<in> fst ` set ?top. ?init k \<noteq> None" by (simp add: related_init)
  from relate_items_closed [OF dist this, of POST_LIMIT_PER_SOURCE items]
  obtain related where
    res: "relate_items POST_LIMIT_PER_SOURCE ?top items ?init = Inr related" and
    val: "\<And>k. related k =
      (if k \<in> fst ` set ?top
       then Some (the (?init k) @
             take (nat (POST_LIMIT_PER_SOURCE - int (length (the (?init k)))))
               (filter (eligible k) items))
       else ?init k)"
    by blast
  have "related k =
      (if k \<in> fst ` set ?top
       then Some (take (nat POST_LIMIT_PER_SOURCE) (filter (eligible k) items)) else None)" for k
    by (simp add: val related_init)
  moreover have "analyze TOP_K POST_LIMIT_PER_SOURCE items = Inr (?top, related)"
    by (simp add: analyze_def count_items_fold res)
  ultimately show ?thesis by blast
qed

lemma count_list_all_tokens: "int (count_list (all_tokens items) k) = occurrences items k"
  by (induction items) (auto simp: all_tokens_def occurrences_def)

text \<open>
  C1, as amended. For every item set, \<open>analyze\<close> returns the \<open>TOP_K\<close> entries of the
  token-count table in order of descending count: every ranked entry is an entry of the
  table, there are \<open>TOP_K\<close> of them or, when the table is smaller, all; an entry of higher
  rank has the higher count or, at equal counts, was inserted into the table first (its
  token occurs first in the scan); and every entry left out ranks behind all ranked
  ones in that same order.
\<close>

theorem ranking_order:
  "\<exists>top_list related. analyze TOP_K POST_LIMIT_PER_SOURCE items = Inr (top_list, related) \<and>
     set top_list \<subseteq> count_table (all_tokens items) \<and>
     length top_list = min (nat TOP_K) (card (count_table (all_tokens items))) \<and>
     (\<forall>i j. i < j \<and> j < length top_list \<longrightarrow>
        ranks_before (all_tokens items) (top_list ! i) (top_list ! j)) \<and>
     (\<forall>e \<in> count_table (all_tokens items) - set top_list. \<forall>r \<in> set top_list.
        ranks_before (all_tokens items) r e)"
proof -
  let ?toks = "all_tokens items"
  let ?top = "most_common TOP_K (fold counter_incr ?toks [])"
  obtain related where run: "analyze TOP_K POST_LIMIT_PER_SOURCE items = Inr (?top, related)"
    using analyze_closed [of TOP_K POST_LIMIT_PER_SOURCE items] by blast
  have "\<forall>i j. i < j \<and> j < length ?top \<longrightarrow> ranks_before ?toks (?top ! i) (?top ! j)"
    using most_common_spec(4) [where toks = "?toks" and n = TOP_K] by (simp add: sorted_wrt_iff_nth_less)
  with run most_common_spec(1,3,5) [where toks = "?toks" and n = TOP_K] show ?thesis by blast
qed

theorem ranking_order_witness:
  "ranked 1 5 [(''Qiita'', ''Go Rust Rust Go'', ''u1'')] = Inr [(''Go'', 2)] \<and>
   ranks_before (all_tokens [(''Qiita'', ''Go Rust Rust Go'', ''u1'')]) (''Go'', 2) (''Rust'', 2)"
proof -
  let ?items = "[(''Qiita'', ''Go Rust Rust Go'', ''u1'')]"
  have run: "ranked 1 5 ?items = Inr [(''Go'', 2)]"
    by code_simp
  have other: "(''Rust'', 2) \<in> count_table (all_tokens ?items) - set [(''Go'', 2)]"
    by code_simp
  from ranking_order [of 1 5 ?items] obtain top_list related where
    res: "analyze 1 5 ?items = Inr (top_list, related)" and
    rest: "\<forall>e \<in> count_table (all_tokens ?items) - set top_list. \<forall>r \<in> set top_list.
        ranks_before (all_tokens ?items) r e"
    by blast
  from run res have "top_list = [(''Go'', 2)]" by (simp add: ranked_def)
  with rest other have "ranks_before (all_tokens ?items) (''Go'', 2) (''Rust'', 2)" by simp
  with run show ?thesis by simp
qed

text \<open>
  C1, as stated, fails on the gloss of the tie-break. Of two tokens with equal counts
  the one that reached its count first does not keep priority: in the title
  \<open>Go Rust Rust Go\<close> the token \<open>Rust\<close> reaches its count 2 at position 2 and \<open>Go\<close> at
  position 3, and \<open>Go\<close>, inserted first, is ranked first.
\<close>

theorem ranking_reach_counterexample:
  "ranked 10 5 [(''Qiita'', ''Go Rust Rust Go'', ''u1'')] = Inr [(''Go'', 2), (''Rust'', 2)] \<and>
   all_tokens [(''Qiita'', ''Go Rust Rust Go'', ''u1'')] = [''Go'', ''Rust'', ''Rust'', ''Go''] \<and>
   reach_index (all_tokens [(''Qiita'', ''Go Rust Rust Go'', ''u1'')]) ''Rust'' = 2 \<and>
   reach_index (all_tokens [(''Qiita'', ''Go Rust Rust Go'', ''u1'')]) ''Go'' = 3"
  by code_simp

text \<open>
  C2. For every item set and a \<open>TOP_K\<close> that is not negative, the ranked list has at
  most \<open>TOP_K\<close> entries, its counts do not increase with the rank, and the count of every
  entry is the number of occurrences of exactly that token in the tokenizations of all
  titles.
\<close>

theorem ranking_counts:
  assumes "0 \<le> TOP_K"
  shows "\<exists>top_list related. analyze TOP_K POST_LIMIT_PER_SOURCE items = Inr (top_list, related) \<and>
     int (length top_list) \<le> TOP_K \<and>
     (\<forall>i j. i \<le> j \<and> j < length top_list \<longrightarrow> snd (top_list ! j) \<le> snd (top_list ! i)) \<and>
     (\<forall>(k, c) \<in> set top_list. c = occurrences items k)"
proof -
  let ?toks = "all_tokens items"
  let ?top = "most_common TOP_K (fold counter_incr ?toks [])"
  obtain related where run: "analyze TOP_K POST_LIMIT_PER_SOURCE items = Inr (?top, related)"
    using analyze_closed [of TOP_K POST_LIMIT_PER_SOURCE items] by blast
  have len: "int (length ?top) \<le> TOP_K"
    using assms most_common_spec(3) [where toks = "?toks" and n = TOP_K] by simp
  have strict: "ranks_before ?toks (?top ! i) (?top ! j)" if "i < j" "j < length ?top" for i j
    using most_common_spec(4) [where toks = "?toks" and n = TOP_K] that by (simp add: sorted_wrt_iff_nth_less)
  have mono: "snd (?top ! j) \<le> snd (?top ! i)" if "i \<le> j" "j < length ?top" for i j
  proof (cases "i = j")
    case True
    then show ?thesis by simp
  next
    case False
    then have "i < j" using that by simp
    from strict [OF this that(2)] show ?thesis by (auto simp: ranks_before_def)
  qed
  have cnt: "c = occurrences items k" if "(k, c) \<in> set ?top" for k c
  proof -
    from that have "(k, c) \<in> count_table ?toks"
      using most_common_spec(1) [where toks = "?toks" and n = TOP_K] by blast
    then show ?thesis by (auto simp: count_table_def count_list_all_tokens)
  qed
  from run len mono cnt show ?thesis by blast
qed

theorem ranking_counts_witness:
  "(0::int) \<le> 2 \<and>
   ranked 2 5 [(''Qiita'', ''Rust is fast'', ''u1''), (''Qiita'', ''Rust async guide'', ''u2''),
               (''feed'', ''Learning Rust basics'', ''u3'')] = Inr [(''Rust'', 3), (''fast'', 1)] \<and>
   occurrences [(''Qiita'', ''Rust is fast'', ''u1''), (''Qiita'', ''Rust async guide'', ''u2''),
               (''feed'', ''Learning Rust basics'', ''u3'')] ''Rust'' = 3"
proof -
  let ?items = "[(''Qiita'', ''Rust is fast'', ''u1''), (''Qiita'', ''Rust async guide'', ''u2''),
               (''feed'', ''Learning Rust basics'', ''u3'')]"
  have pos: "(0::int) \<le> 2" by simp
  have run: "ranked 2 5 ?items = Inr [(''Rust'', 3), (''fast'', 1)]"
    by code_simp
  from ranking_counts [OF pos, of 5 ?items] obtain top_list related where
    res: "analyze 2 5 ?items = Inr (top_list, related)" and
    cnt: "\<forall>(k, c) \<in> set top_list. c = occurrences ?items k"
    by blast
  from run res have "top_list = [(''Rust'', 3), (''fast'', 1)]" by (simp add: ranked_def)
  with cnt have "occurrences ?items ''Rust'' = 3" by simp
  with pos run show ?thesis by simp
qed

text \<open>
  C4. For every item set, every ranked keyword and a \<open>POST_LIMIT_PER_SOURCE\<close> that is
  not negative, the keyword has an evidence list; it has at most
  \<open>POST_LIMIT_PER_SOURCE\<close> items, each with a non-empty link and with the keyword among
  the tokens extracted from its title, and it lists them in the order of the item set.
\<close>

theorem evidence_bounded:
  assumes "0 \<le> POST_LIMIT_PER_SOURCE"
  shows "\<exists>top_list related. analyze TOP_K POST_LIMIT_PER_SOURCE items = Inr (top_list, related) \<and>
     (\<forall>(k, c) \<in> set top_list. \<exists>ev. related k = Some ev \<and>
        int (length ev) \<le> POST_LIMIT_PER_SOURCE \<and>
        (\<forall>(src, title, link) \<in> set ev. link \<noteq> [] \<and> k \<in> set (extract_tokens title)) \<and>
        subseq ev items)"
proof -
  let ?top = "most_common TOP_K (fold counter_incr (all_tokens items) [])"
  obtain related where run: "analyze TOP_K POST_LIMIT_PER_SOURCE items = Inr (?top, related)"
    and val: "\<And>k. related k =
        (if k \<in> fst ` set ?top
         then Some (take (nat POST_LIMIT_PER_SOURCE) (filter (eligible k) items)) else None)"
    using analyze_closed [of TOP_K POST_LIMIT_PER_SOURCE items] by blast
  have "\<exists>ev. related k = Some ev \<and> int (length ev) \<le> POST_LIMIT_PER_SOURCE \<and>
        (\<forall>(src, title, link) \<in> set ev. link \<noteq> [] \<and> k \<in> set (extract_tokens title)) \<and>
        subseq ev items" if "(k, c) \<in> set ?top" for k c
  proof -
    let ?ev = "take (nat POST_LIMIT_PER_SOURCE) (filter (eligible k) items)"
    have "k \<in> fst ` set ?top" using that by force
    then have "related k = Some ?ev" by (simp add: val)
    moreover have "int (length ?ev) \<le> POST_LIMIT_PER_SOURCE" using assms by simp
    moreover have "\<forall>(src, title, link) \<in> set ?ev. link \<noteq> [] \<and> k \<in> set (extract_tokens title)"
    proof -
      have "set ?ev \<subseteq> set (filter (eligible k) items)" by (rule set_take_subset)
      then show ?thesis by auto
    qed
    moreover have "subseq ?ev items"
    proof -
      have "subseq ?ev (filter (eligible k) items)"
        by (rule prefix_imp_subseq) (rule take_is_prefix)
      then show ?thesis using subseq_filter_left subseq_order.order_trans by blast
    qed
    ultimately show ?thesis by blast
  qed
  with run show ?thesis by blast
qed

theorem evidence_bounded_witness:
  "(0::int) \<le> 2 \<and>
   evidence 2 2 [(''Qiita'', ''Rust is fast'', ''u1''), (''GitHubTrending'', ''Rust everywhere'', ''''),
                 (''Qiita'', ''Rust async guide'', ''u2''), (''feed'', ''Learning Rust basics'', ''u3'')]
     ''Rust'' = Inr (Some [(''Qiita'', ''Rust is fast'', ''u1''), (''Qiita'', ''Rust async guide'', ''u2'')]) \<and>
   subseq [(''Qiita'', ''Rust is fast'', ''u1''), (''Qiita'', ''Rust async guide'', ''u2'')]
     [(''Qiita'', ''Rust is fast'', ''u1''), (''GitHubTrending'', ''Rust everywhere'', ''''),
      (''Qiita'', ''Rust async guide'', ''u2''), (''feed'', ''Learning Rust basics'', ''u3'')]"
proof -
  let ?items = "[(''Qiita'', ''Rust is fast'', ''u1''), (''GitHubTrending'', ''Rust everywhere'', ''''),
                 (''Qiita'', ''Rust async guide'', ''u2''), (''feed'', ''Learning Rust basics'', ''u3'')]"
  let ?ev = "[(''Qiita'', ''Rust is fast'', ''u1''), (''Qiita'', ''Rust async guide'', ''u2'')]"
  have pos: "(0::int) \<le> 2" by simp
  have top: "ranked 2 2 ?items = Inr [(''Rust'', 4), (''fast'', 1)]"
    by code_simp
  have ev: "evidence 2 2 ?items ''Rust'' = Inr (Some ?ev)"
    by code_simp
  from evidence_bounded [OF pos, of 2 ?items] obtain top_list related where
    res: "analyze 2 2 ?items = Inr (top_list, related)" and
    all: "\<forall>(k, c) \<in> set top_list. \<exists>ev. related k = Some ev \<and> int (length ev) \<le> 2 \<and>
        (\<forall>(src, title, link) \<in> set ev. link \<noteq> [] \<and> k \<in> set (extract_tokens title)) \<and>
        subseq ev ?items"
    by blast
  from top res have "top_list = [(''Rust'', 4), (''fast'', 1)]" by (simp add: ranked_def)
  with all obtain ev' where "related ''Rust'' = Some ev'" "subseq ev' ?items" by auto
  moreover from ev res have "related ''Rust'' = Some ?ev" by (simp add: evidence_def)
  ultimately have "subseq ?ev ?items" by simp
  with pos ev show ?thesis by simp
qed

section \<open>Channel resolution\<close>

lemma id_re_search_no_CG:
  "\<forall>c \<in> set s. c \<noteq> CHR ''C'' \<and> c \<noteq> CHR ''G'' \<Longrightarrow> id_re_search U prev s = None"
  by (induction s arbitrary: prev) (auto simp: id_re_match_at_def)

text \<open>
  Outside ASCII the result follows the tables. With those of Latin-1: the sharp s
  becomes \<open>SS\<close> in upper case and completes an identifier; an accented letter after
  an identifier is a word character, so that no word boundary ends the match; and a
  no-break space separates two tokens.
\<close>

lemma resolve_channel_id_latin1:
  "resolve_channel_id latin1 (''c123456'' @ [CHR 0xDF]) = Inr ''C123456SS'' \<and>
   resolve_channel_id latin1 (''C12345678'' @ [CHR 0xE9]) = Inr (''C12345678'' @ [CHR 0xE9]) \<and>
   resolve_channel_id latin1 (''dev'' @ [CHR 0xA0] @ ''ops'') = Inr ''dev''"
  by code_simp

text \<open>
  C7. The two examples of the claim hold: \<open>resolve_channel_id\<close> yields \<open>C12345678\<close> on
  \<open>C12345678 # main channel\<close> and \<open>general\<close> on \<open>#general\<close>. But a channel name is not
  returned as it is when, in upper case, it has the shape of an identifier: the search
  runs on the upper-cased input and the match is returned from there. The name
  \<open>changelog\<close> contains neither \<open>C\<close> nor \<open>G\<close> nor \<open>#\<close> and is its own first
  whitespace-delimited token, and \<open>resolve_channel_id\<close> returns \<open>CHANGELOG\<close>; so it does
  on \<open>#changelog\<close>. The inputs are ASCII, so this holds whatever the Unicode tables are.
\<close>

theorem resolve_channel_id_uppercases_name:
  "resolve_channel_id U ''C12345678 # main channel'' = Inr ''C12345678'' \<and>
   resolve_channel_id U ''#general'' = Inr ''general'' \<and>
   CHR ''C'' \<notin> set ''changelog'' \<and> CHR ''G'' \<notin> set ''changelog'' \<and>
   CHR ''#'' \<notin> set ''changelog'' \<and> split_ws U ''changelog'' = [''changelog''] \<and>
   resolve_channel_id U ''changelog'' = Inr ''CHANGELOG'' \<and>
   resolve_channel_id U ''#changelog'' = Inr ''CHANGELOG''"
  by code_simp

text \<open>
  C10, as amended. For every non-empty input that, with the surrounding whitespace
  stripped, consists of \<open>#\<close> characters only (none included: \<open>#\<close>, \<open> ## \<close>, three blanks
  or a no-break space), \<open>resolve_channel_id\<close> neither returns a value nor raises its
  empty-input error: the fallback takes the first element of an empty token list and
  fails with \<open>IndexError\<close>. Whitespace is what \<open>str.strip\<close> takes for it, in ASCII and
  beyond.
\<close>

theorem resolve_channel_id_index_error:
  assumes "raw \<noteq> []" and "set (strip U raw) \<subseteq> {CHR ''#''}"
  shows "resolve_channel_id U raw = Inl IndexError"
proof -
  have hash: "c = CHR ''#''" if "c \<in> set (strip U raw)" for c
    using that assms(2) by auto
  have "is_ascii c" if "c \<in> set (strip U raw)" for c
    using hash [OF that] by (simp add: is_ascii_def ord_def)
  then have ascii: "list_all is_ascii (strip U raw)" by (simp add: list_all_iff)
  have "upper_char c = c" if "c \<in> set (strip U raw)" for c
    using hash [OF that] by (simp add: upper_char_def is_lower_def ord_def)
  then have "upper (strip U raw) = strip U raw"
    unfolding upper_def by (rule map_idI)
  then have up: "str_upper U (strip U raw) = strip U raw"
    using ascii by (simp add: str_upper_def)
  have "\<forall>c \<in> set (strip U raw). c \<noteq> CHR ''C'' \<and> c \<noteq> CHR ''G''"
    using hash by auto
  then have search: "id_re_search U None (str_upper U (strip U raw)) = None"
    unfolding up by (rule id_re_search_no_CG)
  have "lstrip ''#'' (strip U raw) = []"
    using assms(2) by (auto simp: lstrip_def)
  moreover have "split_ws U [] = []" by (subst split_ws.simps) simp
  ultimately show ?thesis using assms(1) search by (simp add: resolve_channel_id_def)
qed

theorem resolve_channel_id_index_error_witness:
  "[CHR 0xA0] \<noteq> [] \<and> set (strip latin1 [CHR 0xA0]) \<subseteq> {CHR ''#''} \<and>
   resolve_channel_id latin1 [CHR 0xA0] = Inl IndexError \<and>
   '' ## '' \<noteq> [] \<and> set (strip latin1 '' ## '') \<subseteq> {CHR ''#''} \<and>
   resolve_channel_id latin1 '' ## '' = Inl IndexError"
proof -
  have ne: "[CHR 0xA0] \<noteq> []" "'' ## '' \<noteq> []" by simp_all
  have "strip latin1 [CHR 0xA0] = []" by code_simp
  then have blank: "set (strip latin1 [CHR 0xA0]) \<subseteq> {CHR ''#''}" by simp
  have "strip latin1 '' ## '' = ''##''" by code_simp
  then have hashes: "set (strip latin1 '' ## '') \<subseteq> {CHR ''#''}" by simp
  from resolve_channel_id_index_error [OF ne(1) blank]
    resolve_channel_id_index_error [OF ne(2) hashes] ne blank hashes
  show ?thesis by simp
qed

text \<open>
  C10, as stated, fails where whitespace stands between the \<open>#\<close> characters: the input
  \<open># #\<close> consists of whitespace and \<open>#\<close> only, and \<open>resolve_channel_id\<close> returns \<open>#\<close>.
\<close>

theorem resolve_channel_id_hash_space_counterexample:
  "''# #'' \<noteq> [] \<and> list_all (\<lambda>c. is_space latin1 c \<or> c = CHR ''#'') ''# #'' \<and>
   resolve_channel_id latin1 ''# #'' = Inr ''#''"
  by code_simp

section \<open>The run\<close>

lemma collect_html_items:
  "fst (collect_html U sources (items, evs)) = items @ concat (map (html_source_items U) sources)"
proof (induction sources arbitrary: items evs)
  case Nil
  show ?case by simp
next
  case (Cons s sources)
  obtain name res where s: "s = (name, res)" by (cases s)
  show ?case by (cases res) (simp_all add: s Cons.IH)
qed

lemma collect_rss_items:
  "fst (collect_rss U sources (items, evs)) = items @ concat (map (rss_source_items U) sources)"
proof (induction sources arbitrary: items evs)
  case Nil
  show ?case by simp
next
  case (Cons s sources)
  obtain name res where s: "s = (name, res)" by (cases s)
  show ?case by (cases res) (simp_all add: s Cons.IH)
qed

lemma collect_html_events:
  "\<forall>e \<in> set evs. \<not> is_artifact e \<Longrightarrow>
   \<forall>e \<in> set (snd (collect_html U sources (items, evs))). \<not> is_artifact e"
proof (induction sources arbitrary: items evs)
  case Nil
  then show ?case by simp
next
  case (Cons s sources)
  obtain name res where s: "s = (name, res)" by (cases s)
  show ?case
  proof (cases res)
    case (Failed e)
    have "\<forall>x \<in> set (evs @ [Print (''[warn] HTML fetch failed '' @ name @ '': '' @ e)]).
            \<not> is_artifact x"
      using Cons.prems by simp
    from Cons.IH [OF this] show ?thesis by (simp add: s Failed)
  next
    case (Fetched html)
    have "\<forall>x \<in> set (evs @ [Sleep]). \<not> is_artifact x"
      using Cons.prems by simp
    from Cons.IH [OF this] show ?thesis by (simp add: s Fetched)
  qed
qed

lemma collect_rss_events:
  "\<forall>e \<in> set evs. \<not> is_artifact e \<Longrightarrow>
   \<forall>e \<in> set (snd (collect_rss U sources (items, evs))). \<not> is_artifact e"
proof (induction sources arbitrary: items evs)
  case Nil
  then show ?case by simp
next
  case (Cons s sources)
  obtain name res where s: "s = (name, res)" by (cases s)
  show ?case
  proof (cases res)
    case (Failed e)
    have "\<forall>x \<in> set (evs @ [Print (''[warn] RSS fetch failed '' @ name @ '': '' @ e)]).
            \<not> is_artifact x"
      using Cons.prems by simp
    from Cons.IH [OF this] show ?thesis by (simp add: s Failed)
  next
    case (Fetched xml)
    have "\<forall>x \<in> set (evs @ [Sleep]). \<not> is_artifact x"
      using Cons.prems by simp
    from Cons.IH [OF this] show ?thesis by (simp add: s Fetched)
  qed
qed

lemma collect_events: "\<forall>e \<in> set (snd (collect U hs rs)). \<not> is_artifact e"
proof -
  obtain items evs where c: "collect_html U hs ([], []) = (items, evs)"
    by (cases "collect_html U hs ([], [])")
  have "\<forall>e \<in> set (snd (collect_html U hs ([], []))). \<not> is_artifact e"
    by (rule collect_html_events) simp
  then have "\<forall>e \<in> set evs. \<not> is_artifact e" by (simp add: c)
  then have "\<forall>e \<in> set (snd (collect_rss U rs (items, evs))). \<not> is_artifact e"
    by (rule collect_rss_events)
  then show ?thesis by (simp add: collect_def c)
qed

text \<open>
  C6. The collected items are the outputs of the sources, each deduplicated on its
  own, one after the other. So two feeds that each yield an item with the same
  \<open>(lowercased(title), link)\<close> both contribute it: the item set handed to \<open>analyze\<close> holds
  both, and the token of the common title is counted twice.
\<close>

theorem no_cross_source_dedup:
  "fst (collect U hs rs) = concat (map (html_source_items U) hs) @ concat (map (rss_source_items U) rs) \<and>
   fst (collect U []
         [(''feedA'', Fetched [(Some ''Rust'', Some (None, ''http://x/1''))]),
          (''feedB'', Fetched [(Some ''Rust'', Some (None, ''http://x/1''))])]) =
     [(''feedA'', ''Rust'', ''http://x/1''), (''feedB'', ''Rust'', ''http://x/1'')] \<and>
   item_key U (''feedA'', ''Rust'', ''http://x/1'') = item_key U (''feedB'', ''Rust'', ''http://x/1'') \<and>
   ranked 10 5 [(''feedA'', ''Rust'', ''http://x/1''), (''feedB'', ''Rust'', ''http://x/1'')] =
     Inr [(''Rust'', 2)]"
proof -
  obtain items evs where c: "collect_html U hs ([], []) = (items, evs)"
    by (cases "collect_html U hs ([], [])")
  have "items = concat (map (html_source_items U) hs)"
    using collect_html_items [of U hs "[]" "[]"] by (simp add: c)
  then have "fst (collect U hs rs) =
      concat (map (html_source_items U) hs) @ concat (map (rss_source_items U) rs)"
    by (simp add: collect_def c collect_rss_items)
  moreover have "fst (collect U []
         [(''feedA'', Fetched [(Some ''Rust'', Some (None, ''http://x/1''))]),
          (''feedB'', Fetched [(Some ''Rust'', Some (None, ''http://x/1''))])]) =
     [(''feedA'', ''Rust'', ''http://x/1''), (''feedB'', ''Rust'', ''http://x/1'')]"
    by code_simp
  moreover have "item_key U (''feedA'', ''Rust'', ''http://x/1'') =
      item_key U (''feedB'', ''Rust'', ''http://x/1'')"
    by simp
  moreover have "ranked 10 5
      [(''feedA'', ''Rust'', ''http://x/1''), (''feedB'', ''Rust'', ''http://x/1'')] =
     Inr [(''Rust'', 2)]"
    by code_simp
  ultimately show ?thesis by blast
qed

text \<open>
  C8. In a run with both environment variables set, when no item was collected from
  the sources, or when the collected items yield no ranked keyword, \<open>main\<close> returns
  without an error, the last thing it does is to print the status message of the case,
  and nothing before it writes the digest document or the index or posts to the
  channel.
\<close>

theorem main_empty_results:
  assumes env: "env_token w \<noteq> []" "env_channel w \<noteq> []"
    and empty: "fst (collect U (html_sources w) (rss_sources w)) = [] \<or>
       ranked (top_k w) (post_limit w) (fst (collect U (html_sources w) (rss_sources w))) = Inr []"
  shows "\<exists>evs msg. main U w = (evs @ [Print msg], Inr ()) \<and>
           msg \<in> {''No items fetched. Skipping Slack post and Pages update.'',
                   ''No keywords extracted. Skipping post.''} \<and>
           (\<forall>e \<in> set evs. \<not> is_artifact e)"
proof -
  obtain items evs where c: "collect U (html_sources w) (rss_sources w) = (items, evs)"
    by (cases "collect U (html_sources w) (rss_sources w)")
  have quiet: "\<forall>e \<in> set evs. \<not> is_artifact e"
    using collect_events [of U "html_sources w" "rss_sources w"] by (simp add: c)
  show ?thesis
  proof (cases "items = []")
    case True
    then have "main U w =
        (evs @ [Print ''No items fetched. Skipping Slack post and Pages update.''], Inr ())"
      using env by (simp add: main_def must_env_def c)
    with quiet show ?thesis by blast
  next
    case False
    then have none: "ranked (top_k w) (post_limit w) items = Inr []"
      using empty by (simp add: c)
    obtain top_list related where
      run: "analyze (top_k w) (post_limit w) items = Inr (top_list, related)"
      using analyze_closed [of "top_k w" "post_limit w" items] by blast
    with none have "top_list = []" by (simp add: ranked_def)
    then have "main U w = (evs @ [Print ''No keywords extracted. Skipping post.''], Inr ())"
      using env False run by (simp add: main_def must_env_def c)
    with quiet show ?thesis by blast
  qed
qed

theorem main_empty_results_witness:
  "env_token quiet_world \<noteq> [] \<and> env_channel quiet_world \<noteq> [] \<and>
   fst (collect latin1 (html_sources quiet_world) (rss_sources quiet_world)) =
     [(''feedA'', ''The 2024'', ''http://x/1'')] \<and>
   ranked (top_k quiet_world) (post_limit quiet_world)
     (fst (collect latin1 (html_sources quiet_world) (rss_sources quiet_world))) = Inr [] \<and>
   main latin1 quiet_world =
     ([Print ''[warn] HTML fetch failed qiita_trend: timeout'', Sleep,
       Print ''No keywords extracted. Skipping post.''], Inr ())"
proof -
  have env: "env_token quiet_world \<noteq> []" "env_channel quiet_world \<noteq> []"
    by (simp_all add: quiet_world_def)
  have items: "fst (collect latin1 (html_sources quiet_world) (rss_sources quiet_world)) =
     [(''feedA'', ''The 2024'', ''http://x/1'')]"
    by code_simp
  have none: "ranked (top_k quiet_world) (post_limit quiet_world)
     (fst (collect latin1 (html_sources quiet_world) (rss_sources quiet_world))) = Inr []"
    by code_simp
  have run: "fst (main latin1 quiet_world) =
     [Print ''[warn] HTML fetch failed qiita_trend: timeout'', Sleep,
       Print ''No keywords extracted. Skipping post.'']"
    by code_simp
  from main_empty_results [OF env, of latin1] none obtain evs msg where
    "main latin1 quiet_world = (evs @ [Print msg], Inr ())"
    by blast
  then have "snd (main latin1 quiet_world) = Inr ()" by simp
  with run have "main latin1 quiet_world =
     ([Print ''[warn] HTML fetch failed qiita_trend: timeout'', Sleep,
       Print ''No keywords extracted. Skipping post.''], Inr ())"
    by (cases "main latin1 quiet_world") simp
  with env items none show ?thesis by simp
qed

end
